theory Spec2Isabelle
  imports Main "HOL-Library.Sublist"
begin

section \<open>Bytes, runes and the library functions the package calls\<close>

text \<open>
  A Go \<^verbatim>\<open>[]byte\<close> and a Go \<^verbatim>\<open>string\<close> are both sequences of bytes: they are
  modelled as \<^typ>\<open>string\<close>, a list of \<^typ>\<open>char\<close> (256 values each). A \<^verbatim>\<open>nil\<close>
  slice and an empty slice are both the empty list: the package only looks at the
  length. A \<^verbatim>\<open>rune\<close> (Go's int32) holds a code point between 0 and 0x10FFFF, and the
  only arithmetic on it is \<^verbatim>\<open>r + ('a' - 'A')\<close> for \<^verbatim>\<open>r\<close> between 'A' and 'Z', so it is
  a natural number and nothing wraps around.
\<close>

type_synonym rune = nat

definition RuneError :: rune where
  "RuneError = 0xFFFD"

definition RuneSelf :: rune where
  "RuneSelf = 0x80"

text \<open>
  \<^verbatim>\<open>utf8.DecodeRune\<close> of Go's standard library (unicode/utf8), written after its
  implementation: the first byte selects the length of the encoding and the range the
  second byte must lie in; continuation bytes lie between 0x80 and 0xBF; whatever does
  not decode yields \<^verbatim>\<open>(RuneError, 1)\<close>, and the empty input \<^verbatim>\<open>(RuneError, 0)\<close>.
  The bytes after the first are read only once the length has been checked, as in the
  library. The masks and shifts of the library are written with \<open>mod\<close> and products:
  the bit fields they join do not overlap.
\<close>

fun DecodeRune :: "string \<Rightarrow> rune \<times> nat" where
  "DecodeRune [] = (RuneError, 0)"
| "DecodeRune (c0 # rest) =
     (let p0 = (of_char c0 :: nat) in
      if p0 < RuneSelf then (p0, 1)
      else if p0 < 0xC2 \<or> 0xF4 < p0 then (RuneError, 1)
      else
        let sz = (if p0 < 0xE0 then 2 else if p0 < 0xF0 then 3 else 4 :: nat);
            lo = (if p0 = 0xE0 then 0xA0 else if p0 = 0xF0 then 0x90 else 0x80 :: nat);
            hi = (if p0 = 0xED then 0x9F else if p0 = 0xF4 then 0x8F else 0xBF :: nat)
        in
        if length (c0 # rest) < sz then (RuneError, 1)
        else
          let b1 = (of_char (rest ! 0) :: nat) in
          if b1 < lo \<or> hi < b1 then (RuneError, 1)
          else if sz \<le> 2 then ((p0 mod 32) * 64 + b1 mod 64, 2)
          else
            let b2 = (of_char (rest ! 1) :: nat) in
            if b2 < 0x80 \<or> 0xBF < b2 then (RuneError, 1)
            else if sz \<le> 3 then ((p0 mod 16) * 4096 + (b1 mod 64) * 64 + b2 mod 64, 3)
            else
              let b3 = (of_char (rest ! 2) :: nat) in
              if b3 < 0x80 \<or> 0xBF < b3 then (RuneError, 1)
              else ((p0 mod 8) * 262144 + (b1 mod 64) * 4096 + (b2 mod 64) * 64 + b3 mod 64, 4))"

text \<open>
  The functions of Go's \<^verbatim>\<open>unicode\<close> package that \<^verbatim>\<open>slugify\<close> calls. Their tables are
  not part of the repository, so \<^verbatim>\<open>slugify\<close> takes them as a parameter; the general
  theorems below hold for every choice of them.
\<close>

record unicode =
  ToLower :: "rune \<Rightarrow> rune"
  IsLetter :: "rune \<Rightarrow> bool"
  IsDigit :: "rune \<Rightarrow> bool"

text \<open>
  The instance used for the test vectors. \<^verbatim>\<open>ToLower\<close> follows the simple lowercase
  mappings of \<^verbatim>\<open>unicode.CaseRanges\<close>: it is written out for every code point below
  U+0180 and for the three code points from U+0180 on whose lowercase form lies below
  U+0180 (U+1E9E, the Kelvin sign U+212A and the Angstrom sign U+212B). Every other
  code point from U+0180 on has a lowercase form from U+0180 on, where the
  transliteration table has no key; the identity stands for it. So \<open>go_ToLower\<close> is
  not Go's function there (Go lowers U+0391 to U+03B1), but it leads to the same entry
  of the table, or to none, as Go's function does, and \<^verbatim>\<open>slugify\<close> uses the lowercase
  form for nothing else. \<^verbatim>\<open>IsLetter\<close> and \<^verbatim>\<open>IsDigit\<close> are written out below U+0180
  and answer no above; \<^verbatim>\<open>slugify\<close> does the same in both cases (lemma
  \<open>slugify_unicode_cong\<close>).
\<close>

definition go_ToLower :: "rune \<Rightarrow> rune" where
  "go_ToLower r =
     (if 0x41 \<le> r \<and> r \<le> 0x5A then r + 32
      else if 0xC0 \<le> r \<and> r \<le> 0xDE \<and> r \<noteq> 0xD7 then r + 32
      else if 0x100 \<le> r \<and> r \<le> 0x12F \<and> even r then r + 1
      else if r = 0x130 then 0x69
      else if 0x132 \<le> r \<and> r \<le> 0x137 \<and> even r then r + 1
      else if 0x139 \<le> r \<and> r \<le> 0x148 \<and> odd r then r + 1
      else if 0x14A \<le> r \<and> r \<le> 0x177 \<and> even r then r + 1
      else if r = 0x178 then 0xFF
      else if 0x179 \<le> r \<and> r \<le> 0x17E \<and> odd r then r + 1
      else if r = 0x1E9E then 0xDF
      else if r = 0x212A then 0x6B
      else if r = 0x212B then 0xE5
      else r)"

definition go_IsLetter :: "rune \<Rightarrow> bool" where
  "go_IsLetter r =
     ((0x41 \<le> r \<and> r \<le> 0x5A) \<or> (0x61 \<le> r \<and> r \<le> 0x7A)
      \<or> r = 0xAA \<or> r = 0xB5 \<or> r = 0xBA
      \<or> (0xC0 \<le> r \<and> r \<le> 0xD6) \<or> (0xD8 \<le> r \<and> r \<le> 0xF6) \<or> (0xF8 \<le> r \<and> r < 0x180))"

definition go_IsDigit :: "rune \<Rightarrow> bool" where
  "go_IsDigit r = (0x30 \<le> r \<and> r \<le> 0x39)"

definition go_unicode :: unicode where
  "go_unicode = \<lparr>ToLower = go_ToLower, IsLetter = go_IsLetter, IsDigit = go_IsDigit\<rparr>"

section \<open>The slugifier of headingid.go\<close>

text \<open>The transliteration table \<^verbatim>\<open>repl\<close>, keyed by lowercase code points.\<close>

definition repl :: "rune \<rightharpoonup> string" where
  "repl = map_of
     [(0xE1, ''a''), (0xE0, ''a''), (0xE2, ''a''), (0xE4, ''a''), (0xE3, ''a''), (0xE5, ''a''),
      (0xE9, ''e''), (0xE8, ''e''), (0xEA, ''e''), (0xEB, ''e''),
      (0xED, ''i''), (0xEC, ''i''), (0xEE, ''i''), (0xEF, ''i''), (0x131, ''i''),
      (0xF3, ''o''), (0xF2, ''o''), (0xF4, ''o''), (0xF6, ''o''), (0xF5, ''o''),
      (0xFA, ''u''), (0xF9, ''u''), (0xFB, ''u''), (0xFC, ''u''),
      (0x11F, ''g''), (0xF1, ''n''), (0xE7, ''c''),
      (0xFD, ''y''), (0xFF, ''y''),
      (0xFE, ''th''), (0xF0, ''d''),
      (0xE6, ''ae''), (0x153, ''oe'')]"

text \<open>
  The state of the loop is the buffer \<^verbatim>\<open>out\<close> and the flag \<^verbatim>\<open>prevSep\<close>. The block
  \<^verbatim>\<open>if !prevSep && out.Len() > 0 { out.WriteByte(sep); prevSep = true }\<close> stands three
  times in the loop; it is \<open>write_sep\<close>.
\<close>

definition write_sep :: "char \<Rightarrow> string \<times> bool \<Rightarrow> string \<times> bool" where
  "write_sep sep st =
     (case st of (out, prevSep) \<Rightarrow>
        if \<not> prevSep \<and> length out > 0 then (out @ [sep], True) else (out, prevSep))"

text \<open>One pass through the body of the loop, for the decoded rune \<open>r\<close>.\<close>

definition slugify_step :: "unicode \<Rightarrow> char \<Rightarrow> rune \<Rightarrow> string \<times> bool \<Rightarrow> string \<times> bool" where
  "slugify_step U sep r st =
     (if r < RuneSelf then
        (if 0x41 \<le> r \<and> r \<le> 0x5A then (fst st @ [char_of (r + (0x61 - 0x41))], False)
         else if (0x61 \<le> r \<and> r \<le> 0x7A) \<or> (0x30 \<le> r \<and> r \<le> 0x39) then (fst st @ [char_of r], False)
         else write_sep sep st)
      else
        (case repl (ToLower U r) of
           Some s \<Rightarrow> (fst st @ s, False)
         | None \<Rightarrow>
             if IsLetter U r \<or> IsDigit U r then write_sep sep st
             else write_sep sep st))"

text \<open>
  The slice expression \<^verbatim>\<open>in[size:]\<close> panics when \<^verbatim>\<open>size\<close> exceeds the length of
  \<^verbatim>\<open>in\<close>; the panic is a result of the model. The loop ends because every decoding of
  a non-empty input consumes at least one byte. The buffer \<^verbatim>\<open>out\<close> grows as needed: a
  machine that runs out of memory is not modelled.
\<close>

datatype panic = SliceBoundsOutOfRange

function slugify_loop :: "unicode \<Rightarrow> char \<Rightarrow> string \<Rightarrow> string \<times> bool \<Rightarrow> panic + string \<times> bool" where
  "slugify_loop U sep inp st =
     (if length inp > 0 then
        (case DecodeRune inp of (r, size') \<Rightarrow>
           if length inp < size' then Inl SliceBoundsOutOfRange
           else slugify_loop U sep (drop size' inp) (slugify_step U sep r st))
      else Inr st)"
  by pat_completeness auto
termination
proof (relation "measure (\<lambda>(U, sep, inp, st). length inp)")
  show "wf (measure (\<lambda>(U, sep, inp, st). length inp))"
    by simp
next
  fix U :: unicode and sep :: char and inp :: string and st :: "string \<times> bool"
    and r :: rune and n :: nat
  assume "0 < length inp" and "(r, n) = DecodeRune inp" and "\<not> length inp < n"
  then have d: "DecodeRune inp = (r, n)" and ne: "inp \<noteq> []"
    by simp_all
  from ne have "1 \<le> snd (DecodeRune inp)"
    by (cases inp) (auto simp: Let_def RuneSelf_def)
  with d ne show "((U, sep, drop n inp, slugify_step U sep r st), (U, sep, inp, st))
      \<in> measure (\<lambda>(U, sep, inp, st). length inp)"
    by simp
qed

definition slugify :: "unicode \<Rightarrow> string \<Rightarrow> char \<Rightarrow> panic + string" where
  "slugify U inp sep =
     (if length inp = 0 then Inr []
      else
        (case slugify_loop U sep inp ([], False) of
           Inl e \<Rightarrow> Inl e
         | Inr (out, prevSep) \<Rightarrow>
             let b = out;
                 b = (if length b > 0 \<and> b ! (length b - 1) = sep then take (length b - 1) b else b);
                 b = (if length b > 0 \<and> b ! 0 = sep then drop 1 b else b)
             in Inr b))"

section \<open>The slugifier of the other revision (src/unnamed/part_000)\<close>

text \<open>
  Its table has a key for the upper and for the lower case of a letter, and upper case
  replacements, which \<^verbatim>\<open>strings.ToLower\<close> lowers; it has no entry for U+0131 and
  U+011F. The code point is looked up as it is.
\<close>

definition repl_part000 :: "rune \<rightharpoonup> string" where
  "repl_part000 = map_of
     [(0xC1, ''A''), (0xC0, ''A''), (0xC2, ''A''), (0xC4, ''A''), (0xC3, ''A''), (0xC5, ''A''),
      (0xE1, ''a''), (0xE0, ''a''), (0xE2, ''a''), (0xE4, ''a''), (0xE3, ''a''), (0xE5, ''a''),
      (0xC9, ''E''), (0xC8, ''E''), (0xCA, ''E''), (0xCB, ''E''),
      (0xE9, ''e''), (0xE8, ''e''), (0xEA, ''e''), (0xEB, ''e''),
      (0xCD, ''I''), (0xCC, ''I''), (0xCE, ''I''), (0xCF, ''I''),
      (0xED, ''i''), (0xEC, ''i''), (0xEE, ''i''), (0xEF, ''i''),
      (0xD3, ''O''), (0xD2, ''O''), (0xD4, ''O''), (0xD6, ''O''), (0xD5, ''O''),
      (0xF3, ''o''), (0xF2, ''o''), (0xF4, ''o''), (0xF6, ''o''), (0xF5, ''o''),
      (0xDA, ''U''), (0xD9, ''U''), (0xDB, ''U''), (0xDC, ''U''),
      (0xFA, ''u''), (0xF9, ''u''), (0xFB, ''u''), (0xFC, ''u''),
      (0xD1, ''N''), (0xF1, ''n''), (0xC7, ''C''), (0xE7, ''c''),
      (0xDD, ''Y''), (0xFD, ''y''), (0xFF, ''y''),
      (0xDE, ''th''), (0xFE, ''th''), (0xD0, ''d''), (0xF0, ''d''),
      (0xC6, ''ae''), (0xE6, ''ae''), (0x152, ''oe''), (0x153, ''oe'')]"

text \<open>
  \<^verbatim>\<open>strings.ToLower\<close> of Go's standard library on a string of ASCII bytes, which
  every replacement of the table is: the bytes 'A' to 'Z' are moved to 'a' to 'z'.
\<close>

definition strings_ToLower :: "string \<Rightarrow> string" where
  "strings_ToLower s =
     map (\<lambda>c. if 0x41 \<le> (of_char c :: nat) \<and> (of_char c :: nat) \<le> 0x5A
              then char_of ((of_char c :: nat) + (0x61 - 0x41)) else c) s"

definition slugify_step_part000 :: "unicode \<Rightarrow> char \<Rightarrow> rune \<Rightarrow> string \<times> bool \<Rightarrow> string \<times> bool" where
  "slugify_step_part000 U sep r st =
     (if r < RuneSelf then
        (if 0x41 \<le> r \<and> r \<le> 0x5A then (fst st @ [char_of (r + (0x61 - 0x41))], False)
         else if (0x61 \<le> r \<and> r \<le> 0x7A) \<or> (0x30 \<le> r \<and> r \<le> 0x39) then (fst st @ [char_of r], False)
         else write_sep sep st)
      else
        (case repl_part000 r of
           Some s \<Rightarrow> (fst st @ strings_ToLower s, False)
         | None \<Rightarrow>
             if IsLetter U r \<or> IsDigit U r then write_sep sep st
             else write_sep sep st))"

function slugify_loop_part000 :: "unicode \<Rightarrow> char \<Rightarrow> string \<Rightarrow> string \<times> bool \<Rightarrow> panic + string \<times> bool" where
  "slugify_loop_part000 U sep inp st =
     (if length inp > 0 then
        (case DecodeRune inp of (r, size') \<Rightarrow>
           if length inp < size' then Inl SliceBoundsOutOfRange
           else slugify_loop_part000 U sep (drop size' inp) (slugify_step_part000 U sep r st))
      else Inr st)"
  by pat_completeness auto
termination
proof (relation "measure (\<lambda>(U, sep, inp, st). length inp)")
  show "wf (measure (\<lambda>(U, sep, inp, st). length inp))"
    by simp
next
  fix U :: unicode and sep :: char and inp :: string and st :: "string \<times> bool"
    and r :: rune and n :: nat
  assume "0 < length inp" and "(r, n) = DecodeRune inp" and "\<not> length inp < n"
  then have d: "DecodeRune inp = (r, n)" and ne: "inp \<noteq> []"
    by simp_all
  from ne have "1 \<le> snd (DecodeRune inp)"
    by (cases inp) (auto simp: Let_def RuneSelf_def)
  with d ne show "((U, sep, drop n inp, slugify_step_part000 U sep r st), (U, sep, inp, st))
      \<in> measure (\<lambda>(U, sep, inp, st). length inp)"
    by simp
qed

definition slugify_part000 :: "unicode \<Rightarrow> string \<Rightarrow> char \<Rightarrow> panic + string" where
  "slugify_part000 U inp sep =
     (if length inp = 0 then Inr []
      else
        (case slugify_loop_part000 U sep inp ([], False) of
           Inl e \<Rightarrow> Inl e
         | Inr (out, prevSep) \<Rightarrow>
             let b = out;
                 b = (if length b > 0 \<and> b ! (length b - 1) = sep then take (length b - 1) b else b);
                 b = (if length b > 0 \<and> b ! 0 = sep then drop 1 b else b)
             in Inr b))"

text \<open>The code points of an input, in the order in which the loop decodes them.\<close>

function runes :: "string \<Rightarrow> rune list" where
  "runes inp =
     (if length inp > 0 then
        (case DecodeRune inp of (r, size') \<Rightarrow>
           if length inp < size' then [] else r # runes (drop size' inp))
      else [])"
  by pat_completeness auto
termination
proof (relation "measure length")
  show "wf (measure length)"
    by simp
next
  fix inp :: string and r :: rune and n :: nat
  assume "0 < length inp" and "(r, n) = DecodeRune inp" and "\<not> length inp < n"
  then have d: "DecodeRune inp = (r, n)" and ne: "inp \<noteq> []"
    by simp_all
  from ne have "1 \<le> snd (DecodeRune inp)"
    by (cases inp) (auto simp: Let_def RuneSelf_def)
  with d ne show "(drop n inp, inp) \<in> measure length"
    by simp
qed

section \<open>The registry of identifiers\<close>

text \<open>
  \<^verbatim>\<open>ast.NodeKind\<close> is goldmark's integer tag of a node type, and \<^verbatim>\<open>ast.KindHeading\<close>
  one of its values. \<^verbatim>\<open>Generate\<close> only asks whether the kind is \<^verbatim>\<open>KindHeading\<close>.
\<close>

datatype NodeKind = KindHeading | KindOther nat

text \<open>
  The struct \<^verbatim>\<open>ids\<close> and its one field, the map \<^verbatim>\<open>values\<close> (here \<open>values'\<close>: the
  plain name is a keyword of Isabelle). A key is present whatever the flag stored with it.
\<close>

record ids =
  values' :: "string \<rightharpoonup> bool"

definition NewIDs :: ids where
  "NewIDs = \<lparr>values' = Map.empty\<rparr>"

text \<open>
  The verb \<^verbatim>\<open>%d\<close> of \<^verbatim>\<open>fmt.Sprintf\<close> on a positive integer: its decimal digits. The
  counter \<^verbatim>\<open>i\<close> of the loop in \<^verbatim>\<open>Generate\<close> is a Go \<^verbatim>\<open>int\<close>; the loop leaves at
  the latest when \<^verbatim>\<open>i\<close> is the number of keys of the map plus one (lemma
  \<open>least_free_suffix\<close>), which is within the range of \<^verbatim>\<open>int\<close> for every map
  that fits in memory, so \<^verbatim>\<open>i\<close> is a natural number here.
\<close>

fun fmt_d :: "nat \<Rightarrow> string" where
  "fmt_d n = (if n < 10 then [char_of (48 + n)] else fmt_d (n div 10) @ [char_of (48 + n mod 10)])"

definition Sprintf_s_d :: "string \<Rightarrow> nat \<Rightarrow> string" where
  "Sprintf_s_d result i = result @ ''-'' @ fmt_d i"

text \<open>
  The loop \<^verbatim>\<open>for i := 1; ; i++\<close> of \<^verbatim>\<open>Generate\<close> has no bound: it is a partial
  function, and \<open>None\<close> stands for a loop that does not return.
\<close>

partial_function (option) Generate_loop :: "ids \<Rightarrow> string \<Rightarrow> nat \<Rightarrow> (string \<times> ids) option" where
  "Generate_loop s result i =
     (let newResult = Sprintf_s_d result i in
      if values' s newResult = None
      then Some (newResult, s\<lparr>values' := (values' s)(newResult \<mapsto> True)\<rparr>)
      else Generate_loop s result (i + 1))"

text \<open>
  \<^verbatim>\<open>Generate\<close> returns the identifier and the registry it has updated. A panic of
  \<^verbatim>\<open>slugify\<close> would pass through it. In the first return the key of the map shares its
  bytes with the slice that is returned (\<^verbatim>\<open>util.BytesToReadOnlyString\<close>); values do not
  change here, so the model takes the caller not to write into that slice.
\<close>

definition Generate :: "unicode \<Rightarrow> ids \<Rightarrow> string \<Rightarrow> NodeKind \<Rightarrow> (panic + string \<times> ids) option" where
  "Generate U s value' kind =
     (case slugify U value' CHR ''-'' of
        Inl e \<Rightarrow> Some (Inl e)
      | Inr result0 \<Rightarrow>
          let result = (if length result0 = 0
                        then (if kind = KindHeading then ''heading'' else ''id'')
                        else result0)
          in if values' s result = None
             then Some (Inr (result, s\<lparr>values' := (values' s)(result \<mapsto> True)\<rparr>))
             else map_option Inr (Generate_loop s result 1))"

definition Put :: "ids \<Rightarrow> string \<Rightarrow> ids" where
  "Put s value' = s\<lparr>values' := (values' s)(value' \<mapsto> True)\<rparr>"

text \<open>
  A session with one registry: a list of calls, run in order. The trace keeps, for each
  call, the registry as it was when the call was made and what the call returned or
  reserved. The result is \<open>None\<close> when a call panics or does not return.
\<close>

datatype call = CallGenerate string NodeKind | CallPut string

datatype event = Returned string | Reserved string

fun ident :: "event \<Rightarrow> string" where
  "ident (Returned r) = r"
| "ident (Reserved v) = v"

fun is_Returned :: "event \<Rightarrow> bool" where
  "is_Returned (Returned r) = True"
| "is_Returned (Reserved v) = False"

fun run :: "unicode \<Rightarrow> ids \<Rightarrow> call list \<Rightarrow> ((ids \<times> event) list \<times> ids) option" where
  "run U s [] = Some ([], s)"
| "run U s (CallPut v # cs) =
     (case run U (Put s v) cs of
        None \<Rightarrow> None
      | Some (tr, s') \<Rightarrow> Some ((s, Reserved v) # tr, s'))"
| "run U s (CallGenerate v kind # cs) =
     (case Generate U s v kind of
        Some (Inr (r, s1)) \<Rightarrow>
          (case run U s1 cs of
             None \<Rightarrow> None
           | Some (tr, s') \<Rightarrow> Some ((s, Returned r) # tr, s'))
      | _ \<Rightarrow> None)"

section \<open>The vocabulary of the properties\<close>

text \<open>The lowercase ASCII letters and the ASCII digits, as bytes.\<close>

definition ascii_lower :: "char \<Rightarrow> bool" where
  "ascii_lower c = (0x61 \<le> (of_char c :: nat) \<and> (of_char c :: nat) \<le> 0x7A)"

definition ascii_digit :: "char \<Rightarrow> bool" where
  "ascii_digit c = (0x30 \<le> (of_char c :: nat) \<and> (of_char c :: nat) \<le> 0x39)"

text \<open>
  What the loop of \<^verbatim>\<open>slugify\<close> keeps true of its buffer and flag when the separator
  is not itself a lowercase letter or a digit: the buffer holds slug bytes only, does
  not start with the separator, has no two separators in a row, and the flag says
  whether it ends with the separator.
\<close>

definition sep_inv :: "char \<Rightarrow> string \<times> bool \<Rightarrow> bool" where
  "sep_inv sep st =
     (list_all (\<lambda>c. ascii_lower c \<or> ascii_digit c \<or> c = sep) (fst st)
      \<and> \<not> prefix [sep] (fst st) \<and> \<not> sublist [sep, sep] (fst st)
      \<and> snd st = suffix [sep] (fst st))"

section \<open>Properties of the slugifier\<close>

declare slugify_loop.simps [simp del]

lemma DecodeRune_size_le: "snd (DecodeRune inp) \<le> length inp"
proof (cases inp)
  case Nil
  then show ?thesis by simp
next
  case (Cons c0 p)
  have "snd (DecodeRune (c0 # p)) \<le> Suc (length p)"
    by (simp add: Let_def not_less)
  with Cons show ?thesis by simp
qed

lemma DecodeRune_size_pos: "inp \<noteq> [] \<Longrightarrow> 1 \<le> snd (DecodeRune inp)"
  by (cases inp) (auto simp: Let_def)

lemma slugify_loop_invariant:
  "(\<And>r st. P st \<Longrightarrow> P (slugify_step U sep r st)) \<Longrightarrow> P st
    \<Longrightarrow> \<exists>st'. slugify_loop U sep inp st = Inr st' \<and> P st'"
proof (induction U sep inp st rule: slugify_loop.induct)
  case (1 U sep inp st)
  note step = "1.prems"(1)
  show ?case
  proof (cases "inp = []")
    case True
    with "1.prems" show ?thesis
      by (simp add: slugify_loop.simps)
  next
    case False
    obtain r n where d: "DecodeRune inp = (r, n)"
      by (cases "DecodeRune inp")
    with DecodeRune_size_le [of inp] have le: "\<not> length inp < n"
      by simp
    have "\<exists>st'. slugify_loop U sep (drop n inp) (slugify_step U sep r st) = Inr st' \<and> P st'"
      using False d le "1.prems"(2) by (intro "1.IH") (simp_all add: step)
    with False d le show ?thesis
      by (subst slugify_loop.simps) simp
  qed
qed

lemma repl_lower: "repl k = Some s \<Longrightarrow> s \<noteq> [] \<and> list_all ascii_lower s"
  by (auto simp: repl_def ascii_lower_def split: if_splits)

lemma char_of_lower: "0x41 \<le> r \<Longrightarrow> r \<le> 0x5A \<Longrightarrow> ascii_lower (char_of ((r::nat) + (0x61 - 0x41)))"
  by (simp add: ascii_lower_def)

lemma char_of_alnum:
  "(0x61 \<le> r \<and> r \<le> 0x7A) \<or> (0x30 \<le> r \<and> r \<le> 0x39) \<Longrightarrow> ascii_lower (char_of (r::nat)) \<or> ascii_digit (char_of r)"
  by (auto simp add: ascii_lower_def ascii_digit_def)

lemma write_sep_cases:
  "write_sep sep st = st \<or> write_sep sep st = (fst st @ [sep], True)"
  by (cases st) (simp add: write_sep_def)

lemma snoc_sep_inv:
  assumes "sep_inv sep st" and "c \<noteq> sep" and "ascii_lower c \<or> ascii_digit c"
  shows "sep_inv sep (fst st @ [c], False)"
  using assms by (auto simp: sep_inv_def sublist_snoc Cons_eq_append_conv)

lemma append_sep_inv:
  assumes "sep_inv sep st" and "list_all (\<lambda>c. c \<noteq> sep \<and> ascii_lower c) s" and "s \<noteq> []"
  shows "sep_inv sep (fst st @ s, False)"
  using assms(2,3)
proof (induction s rule: rev_induct)
  case Nil
  then show ?case by simp
next
  case (snoc c s)
  show ?case
  proof (cases "s = []")
    case True
    with snoc.prems snoc_sep_inv [OF assms(1), of c] show ?thesis
      by simp
  next
    case False
    with snoc have "sep_inv sep (fst st @ s, False)"
      by simp
    from snoc_sep_inv [OF this, of c] snoc.prems show ?thesis
      by simp
  qed
qed

lemma write_sep_sep_inv:
  assumes "sep_inv sep st"
  shows "sep_inv sep (write_sep sep st)"
  using assms by (cases st) (auto simp: sep_inv_def write_sep_def sublist_snoc Cons_eq_append_conv)

lemma slugify_step_sep_inv:
  assumes "\<not> ascii_lower sep" and "\<not> ascii_digit sep" and "sep_inv sep st"
  shows "sep_inv sep (slugify_step U sep r st)"
proof -
  have up: "sep_inv sep (fst st @ [char_of (r + (0x61 - 0x41))], False)" if "0x41 \<le> r" "r \<le> 0x5A"
    using that assms char_of_lower [of r] by (intro snoc_sep_inv) auto
  have al: "sep_inv sep (fst st @ [char_of r], False)"
    if "(0x61 \<le> r \<and> r \<le> 0x7A) \<or> (0x30 \<le> r \<and> r \<le> 0x39)"
    using that assms char_of_alnum [of r] by (intro snoc_sep_inv) auto
  have tr: "sep_inv sep (fst st @ s, False)" if "repl (ToLower U r) = Some s" for s
  proof -
    from repl_lower [OF that] have "s \<noteq> []" "list_all ascii_lower s"
      by simp_all
    with assms(1) have "list_all (\<lambda>c. c \<noteq> sep \<and> ascii_lower c) s"
      by (auto simp: list_all_iff)
    with assms(3) \<open>s \<noteq> []\<close> show ?thesis
      by (intro append_sep_inv)
  qed
  show ?thesis
    unfolding slugify_step_def
    using up al tr write_sep_sep_inv [OF assms(3)]
    by (auto split: option.splits)
qed

lemma slugify_step_bytes:
  assumes "list_all (\<lambda>c. ascii_lower c \<or> ascii_digit c \<or> c = sep) (fst st)"
  shows "list_all (\<lambda>c. ascii_lower c \<or> ascii_digit c \<or> c = sep) (fst (slugify_step U sep r st))"
proof -
  have ws: "list_all (\<lambda>c. ascii_lower c \<or> ascii_digit c \<or> c = sep) (fst (write_sep sep st))"
    using assms write_sep_cases [of sep st] by auto
  have tr: "list_all (\<lambda>c. ascii_lower c \<or> ascii_digit c \<or> c = sep) s"
    if "repl (ToLower U r) = Some s" for s
    using repl_lower [OF that] by (auto simp: list_all_iff)
  show ?thesis
    unfolding slugify_step_def
    using assms ws tr char_of_lower [of r] char_of_alnum [of r]
    by (auto split: option.splits)
qed

lemma ends_with_sep: "(length b > 0 \<and> b ! (length b - 1) = sep) = suffix [sep] b"
  by (cases b rule: rev_cases) (auto simp: nth_append)

lemma starts_with_sep: "(length b > 0 \<and> b ! 0 = sep) = prefix [sep] b"
  by (cases b) auto

lemma slugify_trim:
  "slugify U inp sep =
     (if inp = [] then Inr []
      else case slugify_loop U sep inp ([], False) of
             Inl e \<Rightarrow> Inl e
           | Inr st \<Rightarrow>
               let b = (if suffix [sep] (fst st) then butlast (fst st) else fst st)
               in Inr (if prefix [sep] b then tl b else b))"
proof -
  have tl: "drop 1 b = tl b" for b :: string
    by (simp add: drop_Suc)
  show ?thesis
    unfolding slugify_def Let_def ends_with_sep starts_with_sep tl
    by (simp add: butlast_conv_take split: sum.splits prod.splits)
qed

lemma slugify_loop_Nil: "slugify_loop U sep [] st = Inr st"
  by (simp add: slugify_loop.simps)

lemma slugify_loop_Cons:
  "slugify_loop U sep (c # cs) st =
     slugify_loop U sep (drop (snd (DecodeRune (c # cs))) (c # cs))
       (slugify_step U sep (fst (DecodeRune (c # cs))) st)"
  using DecodeRune_size_le [of "c # cs"]
  by (subst slugify_loop.simps) (simp add: case_prod_beta not_less del: DecodeRune.simps)

lemmas slug_eval = slugify_def slugify_loop_Nil slugify_loop_Cons slugify_step_def write_sep_def
  repl_def go_unicode_def go_ToLower_def go_IsLetter_def go_IsDigit_def RuneSelf_def RuneError_def
  Let_def char_of_def bit_Suc_0_iff

text \<open>
  Claim C9. \<^verbatim>\<open>slugify\<close> returns for every sequence of bytes, valid UTF-8 or not, and
  never panics: the one slice expression that could is never out of range, because a
  decoding step on a non-empty input consumes at least one byte and at most what is
  there (which is also why the loop ends, see the termination proof of
  \<open>slugify_loop\<close>). A code point of \<^verbatim>\<open>RuneSelf\<close> or above that the table does not
  map, and \<^verbatim>\<open>RuneError\<close>, which stands for every byte that does not decode, go
  through \<open>write_sep\<close>, which writes nothing or one separator.
\<close>

theorem slugify_never_fails:
  "(\<exists>out. slugify U inp sep = Inr out)
   \<and> (inp \<noteq> [] \<longrightarrow> 1 \<le> snd (DecodeRune inp) \<and> snd (DecodeRune inp) \<le> length inp)
   \<and> (RuneSelf \<le> r \<and> repl (ToLower U r) = None \<longrightarrow> slugify_step U sep r st = write_sep sep st)
   \<and> slugify_step go_unicode sep RuneError st = write_sep sep st
   \<and> (write_sep sep st = st \<or> write_sep sep st = (fst st @ [sep], True))"
proof -
  from slugify_loop_invariant [of "\<lambda>_. True" U sep "([], False)" inp]
  obtain st' where "slugify_loop U sep inp ([], False) = Inr st'"
    by auto
  then have "\<exists>out. slugify U inp sep = Inr out"
    by (simp add: slugify_trim Let_def)
  moreover have "repl (ToLower go_unicode RuneError) = None"
    by (simp add: go_unicode_def go_ToLower_def RuneError_def repl_def)
  then have "slugify_step go_unicode sep RuneError st = write_sep sep st"
    by (simp add: slugify_step_def RuneError_def RuneSelf_def)
  ultimately show ?thesis
    using DecodeRune_size_le [of inp] DecodeRune_size_pos [of inp] write_sep_cases [of sep st]
    by (auto simp: slugify_step_def)
qed

text \<open>
  An input with a byte that starts no encoding, a two-byte encoding cut by an ASCII
  letter and a three-byte encoding cut by the end of the input.
\<close>

theorem slugify_never_fails_witness:
  "slugify go_unicode [CHR 0xFF, CHR ''a'', CHR 0xC3, CHR ''b'', CHR 0xE2, CHR 0x82] CHR ''-'' = Inr ''a-b''
   \<and> DecodeRune [CHR 0xFF, CHR ''a'', CHR 0xC3, CHR ''b'', CHR 0xE2, CHR 0x82] = (RuneError, 1)
   \<and> RuneSelf \<le> RuneError \<and> repl (ToLower go_unicode RuneError) = None
   \<and> slugify_step go_unicode CHR ''-'' RuneError (''a'', False) = (''a-'', True)"
proof -
  have e: "slugify go_unicode [CHR 0xFF, CHR ''a'', CHR 0xC3, CHR ''b'', CHR 0xE2, CHR 0x82] CHR ''-'' = Inr ''a-b''"
    by (simp add: slug_eval)
  have d: "DecodeRune [CHR 0xFF, CHR ''a'', CHR 0xC3, CHR ''b'', CHR 0xE2, CHR 0x82] = (RuneError, 1)"
    by (simp add: RuneSelf_def)
  have w: "write_sep CHR ''-'' (''a'', False) = (''a-'', True)"
    by (simp add: write_sep_def)
  have n: "RuneSelf \<le> RuneError \<and> repl (ToLower go_unicode RuneError) = None"
    by (simp add: go_unicode_def go_ToLower_def RuneError_def RuneSelf_def repl_def)
  from slugify_never_fails [of go_unicode "[CHR 0xFF, CHR ''a'', CHR 0xC3, CHR ''b'', CHR 0xE2, CHR 0x82]"
      "CHR ''-''" RuneError "(''a'', False)"] e d w n
  show ?thesis
    by simp
qed

text \<open>
  Claim C4, amended. For every input and every separator byte that is not itself a
  lowercase ASCII letter or an ASCII digit, the slug does not start with the separator,
  does not end with it and has no two separators in a row.
\<close>

theorem slugify_separator_placement:
  assumes "\<not> ascii_lower sep" and "\<not> ascii_digit sep"
  shows "\<exists>out. slugify U inp sep = Inr out
           \<and> \<not> prefix [sep] out \<and> \<not> suffix [sep] out \<and> \<not> sublist [sep, sep] out"
proof -
  have "sep_inv sep ([], False)"
    by (simp add: sep_inv_def)
  with slugify_loop_invariant [of "sep_inv sep" U sep "([], False)" inp]
    slugify_step_sep_inv [OF assms]
  obtain st' where l: "slugify_loop U sep inp ([], False) = Inr st'" and inv: "sep_inv sep st'"
    by blast
  define b where "b = (if suffix [sep] (fst st') then butlast (fst st') else fst st')"
  from inv have p: "\<not> prefix [sep] (fst st')" and s: "\<not> sublist [sep, sep] (fst st')"
    by (simp_all add: sep_inv_def)
  have "\<not> prefix [sep] b \<and> \<not> suffix [sep] b \<and> \<not> sublist [sep, sep] b"
  proof (cases "suffix [sep] (fst st')")
    case True
    then obtain ys where ys: "fst st' = ys @ [sep]"
      by (auto simp: suffix_def)
    with True have b: "b = ys"
      by (simp add: b_def)
    from p ys have "\<not> prefix [sep] ys"
      by (auto simp: prefix_def)
    moreover from s ys have "\<not> suffix [sep] ys"
      by (auto simp: suffix_def)
    moreover from s ys have "\<not> sublist [sep, sep] ys"
      by (auto simp: sublist_snoc)
    ultimately show ?thesis
      by (simp add: b)
  next
    case False
    with p s show ?thesis
      by (simp add: b_def)
  qed
  moreover have "slugify U inp sep = Inr (if inp = [] then [] else if prefix [sep] b then tl b else b)"
    by (simp add: slugify_trim l b_def Let_def)
  ultimately show ?thesis
    by auto
qed

theorem slugify_separator_placement_witness:
  "\<not> ascii_lower CHR ''-'' \<and> \<not> ascii_digit CHR ''-''
   \<and> slugify go_unicode ''--Hello,  World!--'' CHR ''-'' = Inr ''hello-world''
   \<and> \<not> prefix ''-'' ''hello-world'' \<and> \<not> suffix ''-'' ''hello-world''
   \<and> \<not> sublist ''--'' ''hello-world''"
proof -
  have h: "\<not> ascii_lower CHR ''-''" "\<not> ascii_digit CHR ''-''"
    by (simp_all add: ascii_lower_def ascii_digit_def)
  have e: "slugify go_unicode ''--Hello,  World!--'' CHR ''-'' = Inr ''hello-world''"
    by (simp add: slug_eval)
  from slugify_separator_placement [OF h, of go_unicode "''--Hello,  World!--''"] e h
  show ?thesis
    by simp
qed

text \<open>
  Claim C4 as stated, for every separator byte, fails when the separator is a lowercase
  letter: the letters of the input are then separators of the output, and only one is
  trimmed at each end.
\<close>

theorem slugify_separator_placement_counterexample:
  "slugify go_unicode ''aaaa'' CHR ''a'' = Inr ''aa''
   \<and> prefix [CHR ''a''] ''aa'' \<and> suffix [CHR ''a''] ''aa'' \<and> sublist [CHR ''a'', CHR ''a''] ''aa''"
proof -
  have "slugify go_unicode ''aaaa'' CHR ''a'' = Inr ''aa''"
    by (simp add: slug_eval)
  then show ?thesis
    by (simp add: suffix_def)
qed

text \<open>
  Claim C7. \<^verbatim>\<open>slugify("Hello, World!", '-')\<close> is \<^verbatim>\<open>"hello-world"\<close>.
\<close>

theorem slugify_hello_world:
  "slugify go_unicode ''Hello, World!'' CHR ''-'' = Inr ''hello-world''"
  by (simp add: slug_eval)

text \<open>
  Claim C6. \<^verbatim>\<open>slugify\<close> of the text "Cafe Munster" written with U+00E9 for its first
  "e" and U+00FC for its "u" (in UTF-8, the bytes C3 A9 and C3 BC), with the separator
  \<^verbatim>\<open>'-'\<close>, is \<^verbatim>\<open>"cafe-munster"\<close>.
\<close>

theorem slugify_cafe_munster:
  "slugify go_unicode (''Caf'' @ [CHR 0xC3, CHR 0xA9] @ '' M'' @ [CHR 0xC3, CHR 0xBC] @ ''nster'') CHR ''-''
     = Inr ''cafe-munster''"
  by (simp add: slug_eval)

section \<open>Properties of the registry\<close>

declare fmt_d.simps [simp del]

lemma fmt_d_digits: "list_all ascii_digit (fmt_d n)"
proof (induction n rule: fmt_d.induct)
  case (1 n)
  show ?case
  proof (cases "n < 10")
    case True
    then show ?thesis
      by (subst fmt_d.simps) (simp add: ascii_digit_def)
  next
    case False
    have "n mod 10 < 10"
      by simp
    then have "ascii_digit (char_of (48 + n mod 10))"
      unfolding ascii_digit_def by (simp add: of_char_of [where 'a = nat] del: mod_less_divisor)
    with False "1.IH" show ?thesis
      by (subst fmt_d.simps) simp
  qed
qed

lemma fmt_d_value: "foldl (\<lambda>a c. 10 * a + (of_char c - 48)) 0 (fmt_d n) = n"
proof (induction n rule: fmt_d.induct)
  case (1 n)
  show ?case
  proof (cases "n < 10")
    case True
    then show ?thesis
      by (subst fmt_d.simps) simp
  next
    case False
    have "n mod 10 < 10"
      by simp
    then have "(of_char (char_of (48 + n mod 10)) :: nat) = 48 + n mod 10"
      by (simp del: mod_less_divisor)
    with False "1.IH" show ?thesis
      by (subst fmt_d.simps) simp
  qed
qed

lemma fmt_d_inj:
  assumes "fmt_d m = fmt_d n"
  shows "m = n"
proof -
  have "foldl (\<lambda>a c. 10 * a + (of_char c - 48)) (0::nat) (fmt_d m)
      = foldl (\<lambda>a c. 10 * a + (of_char c - 48)) (0::nat) (fmt_d n)"
    by (simp only: assms)
  then show ?thesis
    by (simp only: fmt_d_value)
qed

lemma Sprintf_s_d_inj: "inj (Sprintf_s_d result)"
  by (rule injI) (auto simp: Sprintf_s_d_def dest: fmt_d_inj)

lemma Generate_loop_finds:
  assumes "values' s (Sprintf_s_d result i) = None"
    and "\<forall>j. i0 \<le> j \<and> j < i \<longrightarrow> values' s (Sprintf_s_d result j) \<noteq> None"
    and "i0 \<le> i"
  shows "Generate_loop s result i0 =
    Some (Sprintf_s_d result i, s\<lparr>values' := (values' s)(Sprintf_s_d result i \<mapsto> True)\<rparr>)"
  using assms(2,3)
proof (induction "i - i0" arbitrary: i0)
  case 0
  then have "i0 = i"
    by simp
  with assms(1) show ?case
    by (subst Generate_loop.simps) (simp add: Let_def)
next
  case (Suc d)
  then have lt: "i0 < i"
    by simp
  with Suc.prems obtain b where "values' s (Sprintf_s_d result i0) = Some b"
    by auto
  moreover have "Generate_loop s result (i0 + 1) =
    Some (Sprintf_s_d result i, s\<lparr>values' := (values' s)(Sprintf_s_d result i \<mapsto> True)\<rparr>)"
    using Suc.hyps(2) Suc.prems lt by (intro Suc.hyps(1)) auto
  ultimately show ?case
    by (subst Generate_loop.simps) (simp add: Let_def)
qed

lemma free_suffix_exists:
  assumes "finite (dom m)"
  shows "\<exists>i. 1 \<le> i \<and> i \<le> card (dom m) + 1 \<and> m (Sprintf_s_d result i) = None"
proof (rule ccontr)
  assume "\<not> ?thesis"
  then have "Sprintf_s_d result ` {1..card (dom m) + 1} \<subseteq> dom m"
    by auto
  with assms have "card (Sprintf_s_d result ` {1..card (dom m) + 1}) \<le> card (dom m)"
    by (intro card_mono)
  moreover have "card (Sprintf_s_d result ` {1..card (dom m) + 1}) = card {1..card (dom m) + 1}"
    by (intro card_image inj_on_subset [OF Sprintf_s_d_inj]) simp
  ultimately show False
    by simp
qed

lemma least_free_suffix:
  assumes "finite (dom m)"
  shows "\<exists>i. 1 \<le> i \<and> i \<le> card (dom m) + 1 \<and> m (Sprintf_s_d result i) = None
    \<and> (\<forall>j. 1 \<le> j \<and> j < i \<longrightarrow> m (Sprintf_s_d result j) \<noteq> None)"
proof -
  define P where "P i = (1 \<le> i \<and> m (Sprintf_s_d result i) = None)" for i
  from free_suffix_exists [OF assms, of result]
  obtain k where k: "P k" "k \<le> card (dom m) + 1"
    by (auto simp: P_def)
  define i where "i = (LEAST i. P i)"
  have "P i"
    unfolding i_def using k(1) by (rule LeastI)
  moreover have "i \<le> k"
    unfolding i_def using k(1) by (rule Least_le)
  moreover have "\<not> P j" if "j < i" for j
    using that not_less_Least [of j P] by (simp add: i_def)
  ultimately show ?thesis
    using k(2) by (intro exI [of _ i]) (auto simp: P_def)
qed

lemma slugify_bytes:
  "\<exists>out. slugify U inp sep = Inr out \<and> list_all (\<lambda>c. ascii_lower c \<or> ascii_digit c \<or> c = sep) out"
proof -
  let ?P = "\<lambda>st. list_all (\<lambda>c. ascii_lower c \<or> ascii_digit c \<or> c = sep) (fst st)"
  have "?P ([], False)"
    by simp
  with slugify_loop_invariant [of ?P U sep "([], False)" inp] slugify_step_bytes
  obtain st' where l: "slugify_loop U sep inp ([], False) = Inr st'" and a: "?P st'"
    by blast
  define b where "b = (if suffix [sep] (fst st') then butlast (fst st') else fst st')"
  from a have "list_all (\<lambda>c. ascii_lower c \<or> ascii_digit c \<or> c = sep) b"
    by (auto simp: b_def list_all_iff dest: in_set_butlastD)
  moreover have "set (tl b) \<subseteq> set b"
    by (cases b) auto
  ultimately have "list_all (\<lambda>c. ascii_lower c \<or> ascii_digit c \<or> c = sep) (if prefix [sep] b then tl b else b)"
    unfolding list_all_iff by auto
  moreover have "slugify U inp sep = Inr (if inp = [] then [] else if prefix [sep] b then tl b else b)"
    by (simp add: slugify_trim l b_def Let_def)
  ultimately show ?thesis
    by auto
qed

lemma Generate_slug:
  assumes "slugify U v CHR ''-'' = Inr slug"
  shows "Generate U s v k =
     (if values' s (if slug = [] then (if k = KindHeading then ''heading'' else ''id'') else slug) = None
      then Some (Inr (if slug = [] then (if k = KindHeading then ''heading'' else ''id'') else slug,
        s\<lparr>values' := (values' s)
          ((if slug = [] then (if k = KindHeading then ''heading'' else ''id'') else slug) \<mapsto> True)\<rparr>))
      else map_option Inr
        (Generate_loop s (if slug = [] then (if k = KindHeading then ''heading'' else ''id'') else slug) 1))"
  by (simp add: Generate_def assms Let_def)

lemma Generate_loop_if:
  "Generate_loop s result i =
     (if values' s (Sprintf_s_d result i) = None
      then Some (Sprintf_s_d result i, s\<lparr>values' := (values' s)(Sprintf_s_d result i \<mapsto> True)\<rparr>)
      else Generate_loop s result (Suc i))"
  by (subst Generate_loop.simps) (simp add: Let_def)

lemma Sprintf_s_d_bytes:
  assumes "list_all (\<lambda>c. ascii_lower c \<or> ascii_digit c \<or> c = CHR ''-'') result"
  shows "list_all (\<lambda>c. ascii_lower c \<or> ascii_digit c \<or> c = CHR ''-'') (Sprintf_s_d result i)"
  using assms fmt_d_digits [of i] by (auto simp: Sprintf_s_d_def list_all_iff)

lemma Generate_fresh:
  assumes "finite (dom (values' s))"
  shows "\<exists>r. Generate U s v k = Some (Inr (r, s\<lparr>values' := (values' s)(r \<mapsto> True)\<rparr>))
    \<and> values' s r = None \<and> r \<noteq> []
    \<and> list_all (\<lambda>c. ascii_lower c \<or> ascii_digit c \<or> c = CHR ''-'') r"
proof -
  let ?A = "list_all (\<lambda>c. ascii_lower c \<or> ascii_digit c \<or> c = CHR ''-'')"
  from slugify_bytes [of U v "CHR ''-''"]
  obtain slug where slug: "slugify U v CHR ''-'' = Inr slug" and sb: "?A slug"
    by blast
  define result where "result = (if slug = [] then (if k = KindHeading then ''heading'' else ''id'') else slug)"
  have fb: "?A ''heading''" "?A ''id''"
    by (simp_all add: ascii_lower_def)
  with sb have rb: "?A result" and rn: "result \<noteq> []"
    by (auto simp: result_def)
  show ?thesis
  proof (cases "values' s result = None")
    case True
    with rb rn show ?thesis
      unfolding Generate_slug [OF slug] result_def [symmetric] by auto
  next
    case False
    from least_free_suffix [OF assms, of result]
    obtain i where i: "1 \<le> i" "values' s (Sprintf_s_d result i) = None"
        "\<forall>j. 1 \<le> j \<and> j < i \<longrightarrow> values' s (Sprintf_s_d result j) \<noteq> None"
      by blast
    from False obtain b where "values' s result = Some b"
      by auto
    with Generate_loop_finds [OF i(2,3,1)]
    have "Generate U s v k = Some (Inr (Sprintf_s_d result i,
        s\<lparr>values' := (values' s)(Sprintf_s_d result i \<mapsto> True)\<rparr>))"
      unfolding Generate_slug [OF slug] result_def [symmetric] by simp
    moreover have "Sprintf_s_d result i \<noteq> []"
      by (simp add: Sprintf_s_d_def)
    ultimately show ?thesis
      using i(2) Sprintf_s_d_bytes [OF rb, of i] by auto
  qed
qed

lemmas registry_eval = Generate_def Generate_loop_if Sprintf_s_d_def fmt_d.simps Put_def NewIDs_def
  char_of_def bit_Suc_0_iff





text \<open>
  Claim C3. In a registry with finitely many identifiers \<^verbatim>\<open>Generate\<close> returns an
  identifier that is not empty, for every text and kind. The empty text has the empty
  slug. When the slug of the text is empty, the candidate is \<^verbatim>\<open>heading\<close> for a heading
  and \<^verbatim>\<open>id\<close> for any other kind: \<^verbatim>\<open>Generate\<close> returns it when it is not in the map,
  and otherwise the composite of it with the least suffix from 1 on that is not in the
  map; the map gains what is returned.
\<close>

theorem Generate_fallback:
  assumes "finite (dom (values' s))"
  shows "(\<exists>r s'. Generate U s value' kind = Some (Inr (r, s')) \<and> r \<noteq> [])
    \<and> slugify U [] CHR ''-'' = Inr []
    \<and> (slugify U value' CHR ''-'' = Inr [] \<longrightarrow>
         (values' s (if kind = KindHeading then ''heading'' else ''id'') = None \<longrightarrow>
            Generate U s value' kind =
              Some (Inr (if kind = KindHeading then ''heading'' else ''id'',
                s\<lparr>values' := (values' s)((if kind = KindHeading then ''heading'' else ''id'') \<mapsto> True)\<rparr>)))
         \<and> (values' s (if kind = KindHeading then ''heading'' else ''id'') \<noteq> None \<longrightarrow>
            (\<exists>i. 1 \<le> i
               \<and> values' s ((if kind = KindHeading then ''heading'' else ''id'') @ ''-'' @ fmt_d i) = None
               \<and> (\<forall>j. 1 \<le> j \<and> j < i \<longrightarrow>
                     values' s ((if kind = KindHeading then ''heading'' else ''id'') @ ''-'' @ fmt_d j) \<noteq> None)
               \<and> Generate U s value' kind =
                   Some (Inr ((if kind = KindHeading then ''heading'' else ''id'') @ ''-'' @ fmt_d i,
                     s\<lparr>values' := (values' s)
                       (((if kind = KindHeading then ''heading'' else ''id'') @ ''-'' @ fmt_d i) \<mapsto> True)\<rparr>)))))"
proof -
  define fb where "fb = (if kind = KindHeading then ''heading'' else ''id'')"
  from Generate_fresh [OF assms, of U value' kind]
  have 1: "\<exists>r s'. Generate U s value' kind = Some (Inr (r, s')) \<and> r \<noteq> []"
    by blast
  have 2: "slugify U [] CHR ''-'' = Inr []"
    by (simp add: slugify_def)
  have 3: "Generate U s value' kind = Some (Inr (fb, s\<lparr>values' := (values' s)(fb \<mapsto> True)\<rparr>))"
    if "slugify U value' CHR ''-'' = Inr []" "values' s fb = None"
    using that by (simp add: Generate_slug fb_def)
  have 4: "\<exists>i. 1 \<le> i \<and> values' s (fb @ ''-'' @ fmt_d i) = None
      \<and> (\<forall>j. 1 \<le> j \<and> j < i \<longrightarrow> values' s (fb @ ''-'' @ fmt_d j) \<noteq> None)
      \<and> Generate U s value' kind =
          Some (Inr (fb @ ''-'' @ fmt_d i, s\<lparr>values' := (values' s)((fb @ ''-'' @ fmt_d i) \<mapsto> True)\<rparr>))"
    if e: "slugify U value' CHR ''-'' = Inr []" and p: "values' s fb \<noteq> None"
  proof -
    from least_free_suffix [OF assms, of fb]
    obtain i where i: "1 \<le> i" "values' s (Sprintf_s_d fb i) = None"
        "\<forall>j. 1 \<le> j \<and> j < i \<longrightarrow> values' s (Sprintf_s_d fb j) \<noteq> None"
      by blast
    from p obtain b where "values' s fb = Some b"
      by auto
    with Generate_loop_finds [OF i(2,3,1)]
    have "Generate U s value' kind =
        Some (Inr (Sprintf_s_d fb i, s\<lparr>values' := (values' s)(Sprintf_s_d fb i \<mapsto> True)\<rparr>))"
      by (simp add: Generate_slug [OF e] fb_def)
    with i show ?thesis
      unfolding Sprintf_s_d_def by blast
  qed
  from 1 2 3 4 show ?thesis
    unfolding fb_def by blast
qed

text \<open>
  Five texts with an empty slug on a fresh registry: \<^verbatim>\<open>heading\<close>, \<^verbatim>\<open>heading-1\<close>,
  \<^verbatim>\<open>heading-2\<close> for the headings, then \<^verbatim>\<open>id\<close>, \<^verbatim>\<open>id-1\<close> for another kind.
\<close>

theorem Generate_fallback_witness:
  "finite (dom (values' NewIDs))
   \<and> slugify go_unicode ''!!!'' CHR ''-'' = Inr []
   \<and> map_option (map snd \<circ> fst)
       (run go_unicode NewIDs
          [CallGenerate ''!!!'' KindHeading, CallGenerate [] KindHeading, CallGenerate ''?'' KindHeading,
           CallGenerate ''--'' (KindOther 0), CallGenerate [] (KindOther 0)])
     = Some [Returned ''heading'', Returned ''heading-1'', Returned ''heading-2'',
             Returned ''id'', Returned ''id-1'']"
proof -
  have f: "finite (dom (values' NewIDs))"
    by (simp add: NewIDs_def)
  have e: "slugify go_unicode ''!!!'' CHR ''-'' = Inr []"
    by (simp add: slug_eval)
  have r: "map_option (map snd \<circ> fst)
       (run go_unicode NewIDs
          [CallGenerate ''!!!'' KindHeading, CallGenerate [] KindHeading, CallGenerate ''?'' KindHeading,
           CallGenerate ''--'' (KindOther 0), CallGenerate [] (KindOther 0)])
     = Some [Returned ''heading'', Returned ''heading-1'', Returned ''heading-2'',
             Returned ''id'', Returned ''id-1'']"
    by (simp add: registry_eval slug_eval)
  from Generate_fallback [OF f, of go_unicode "''!!!''" KindHeading] f e r show ?thesis
    by simp
qed

text \<open>
  Claim C5. For every input and every separator byte, each byte of the slug is a
  lowercase ASCII letter, an ASCII digit or the separator. In a registry with finitely
  many identifiers, the identifier \<^verbatim>\<open>Generate\<close> returns is not empty and each of its
  bytes is a lowercase ASCII letter, an ASCII digit or \<^verbatim>\<open>'-'\<close>.
\<close>

theorem output_alphabet:
  "(\<exists>out. slugify U inp sep = Inr out \<and> (\<forall>c\<in>set out. ascii_lower c \<or> ascii_digit c \<or> c = sep))
   \<and> (finite (dom (values' s)) \<longrightarrow>
        (\<exists>r s'. Generate U s inp kind = Some (Inr (r, s')) \<and> r \<noteq> []
           \<and> (\<forall>c\<in>set r. ascii_lower c \<or> ascii_digit c \<or> c = CHR ''-'')))"
  using slugify_bytes [of U inp sep] Generate_fresh [of s U inp kind]
  unfolding list_all_iff by blast

text \<open>A slug with the separator \<^verbatim>\<open>'_'\<close>, and an identifier with a suffix.\<close>

theorem output_alphabet_witness:
  "slugify go_unicode ''Hello, World! 42'' CHR ''_'' = Inr ''hello_world_42''
   \<and> list_all (\<lambda>c. ascii_lower c \<or> ascii_digit c \<or> c = CHR ''_'') ''hello_world_42''
   \<and> finite (dom (values' (Put NewIDs ''hello-world-42'')))
   \<and> Generate go_unicode (Put NewIDs ''hello-world-42'') ''Hello, World! 42'' KindHeading
       = Some (Inr (''hello-world-42-1'', Put (Put NewIDs ''hello-world-42'') ''hello-world-42-1''))
   \<and> list_all (\<lambda>c. ascii_lower c \<or> ascii_digit c \<or> c = CHR ''-'') ''hello-world-42-1''"
proof -
  have a: "slugify go_unicode ''Hello, World! 42'' CHR ''_'' = Inr ''hello_world_42''"
    by (simp add: slug_eval)
  have f: "finite (dom (values' (Put NewIDs ''hello-world-42'')))"
    by (simp add: Put_def NewIDs_def)
  have g: "Generate go_unicode (Put NewIDs ''hello-world-42'') ''Hello, World! 42'' KindHeading
       = Some (Inr (''hello-world-42-1'', Put (Put NewIDs ''hello-world-42'') ''hello-world-42-1''))"
    by (simp add: registry_eval slug_eval)
  from output_alphabet [of go_unicode "''Hello, World! 42''" "CHR ''_''"
      "Put NewIDs ''hello-world-42''" KindHeading] a f g
  show ?thesis
    by (simp add: ascii_lower_def ascii_digit_def)
qed

lemma run_trace:
  assumes "finite (dom (values' s))"
  shows "\<exists>tr s'. run U s calls = Some (tr, s') \<and> length tr = length calls
    \<and> finite (dom (values' s')) \<and> dom (values' s) \<subseteq> dom (values' s')
    \<and> (\<forall>(pre, ev)\<in>set tr. dom (values' s) \<subseteq> dom (values' pre) \<and> ident ev \<in> dom (values' s')
          \<and> (if is_Returned ev then ident ev \<notin> dom (values' pre) else True))
    \<and> (\<forall>j<length tr. \<forall>i<j. ident (snd (tr ! i)) \<in> dom (values' (fst (tr ! j))))"
  using assms
proof (induction calls arbitrary: s)
  case Nil
  then show ?case
    by simp
next
  case (Cons c cs)
  obtain s1 ev where step: "\<And>tr s'. run U s1 cs = Some (tr, s') \<Longrightarrow> run U s (c # cs) = Some ((s, ev) # tr, s')"
    and s1: "values' s1 = (values' s)(ident ev \<mapsto> True)"
    and fresh: "is_Returned ev \<Longrightarrow> ident ev \<notin> dom (values' s)"
  proof (cases c)
    case (CallPut v)
    show ?thesis
      by (rule that [of "Put s v" "Reserved v"]) (simp_all add: CallPut Put_def)
  next
    case (CallGenerate v k)
    from Generate_fresh [OF Cons.prems, of U v k]
    obtain r where r: "Generate U s v k = Some (Inr (r, s\<lparr>values' := (values' s)(r \<mapsto> True)\<rparr>))"
        "values' s r = None"
      by blast
    show ?thesis
      by (rule that [of "s\<lparr>values' := (values' s)(r \<mapsto> True)\<rparr>" "Returned r"])
        (auto simp: CallGenerate r)
  qed
  from s1 Cons.prems have f1: "finite (dom (values' s1))"
    by simp
  from Cons.IH [OF f1]
  obtain tr s' where run: "run U s1 cs = Some (tr, s')" and len: "length tr = length cs"
    and fin: "finite (dom (values' s'))" and sub: "dom (values' s1) \<subseteq> dom (values' s')"
    and each: "\<forall>(pre, ev)\<in>set tr. dom (values' s1) \<subseteq> dom (values' pre) \<and> ident ev \<in> dom (values' s')
          \<and> (if is_Returned ev then ident ev \<notin> dom (values' pre) else True)"
    and earlier: "\<forall>j<length tr. \<forall>i<j. ident (snd (tr ! i)) \<in> dom (values' (fst (tr ! j)))"
    by blast
  have d1: "dom (values' s) \<subseteq> dom (values' s1)" and e1: "ident ev \<in> dom (values' s1)"
    by (auto simp: s1)
  have tail: "dom (values' s) \<subseteq> dom (values' (fst p)) \<and> ident (snd p) \<in> dom (values' s')
          \<and> (if is_Returned (snd p) then ident (snd p) \<notin> dom (values' (fst p)) else True)"
    if "p \<in> set tr" for p
  proof -
    from bspec [OF each that]
    have "dom (values' s1) \<subseteq> dom (values' (fst p))" "ident (snd p) \<in> dom (values' s')"
        "if is_Returned (snd p) then ident (snd p) \<notin> dom (values' (fst p)) else True"
      by (simp_all add: case_prod_beta)
    with subset_trans [OF d1, of "dom (values' (fst p))"] show ?thesis
      by simp
  qed
  have head: "ident ev \<in> dom (values' s') \<and> (if is_Returned ev then ident ev \<notin> dom (values' s) else True)"
    using e1 sub fresh by (simp add: subsetD)
  have a: "\<forall>(pre, e)\<in>set ((s, ev) # tr). dom (values' s) \<subseteq> dom (values' pre) \<and> ident e \<in> dom (values' s')
          \<and> (if is_Returned e then ident e \<notin> dom (values' pre) else True)"
    using head tail by (simp add: case_prod_beta)
  have b: "ident (snd (((s, ev) # tr) ! i)) \<in> dom (values' (fst (((s, ev) # tr) ! j)))"
    if "j < length ((s, ev) # tr)" "i < j" for i j
  proof (cases j)
    case 0
    with that show ?thesis by simp
  next
    case (Suc j')
    with that have j': "j' < length tr"
      by simp
    then have "tr ! j' \<in> set tr"
      by simp
    with each have pre: "dom (values' s1) \<subseteq> dom (values' (fst (tr ! j')))"
      by (auto simp: case_prod_beta)
    show ?thesis
    proof (cases i)
      case 0
      with Suc pre e1 show ?thesis by auto
    next
      case (Suc i')
      with \<open>j = Suc j'\<close> that j' earlier show ?thesis by simp
    qed
  qed
  from d1 sub have "dom (values' s) \<subseteq> dom (values' s')"
    by (rule subset_trans)
  with step [OF run] len fin a b show ?case
    by (intro exI [of _ "(s, ev) # tr"] exI [of _ s']) simp
qed

text \<open>
  Claim C1. Every sequence of \<^verbatim>\<open>Generate\<close> and \<^verbatim>\<open>Put\<close> calls on a registry made by
  \<^verbatim>\<open>NewIDs\<close> runs to its end, every call returning. Every string a call returned or
  reserved is a key of the map at the end. A string \<^verbatim>\<open>Generate\<close> returns was not a key
  of the map when the call was made; every string returned or reserved by an earlier
  call was one, so what \<^verbatim>\<open>Generate\<close> returns differs from all of them.
\<close>

theorem registry_uniqueness:
  "\<exists>tr s'. run U NewIDs calls = Some (tr, s') \<and> length tr = length calls
     \<and> (\<forall>(pre, ev)\<in>set tr. ident ev \<in> dom (values' s'))
     \<and> (\<forall>(pre, ev)\<in>set tr. is_Returned ev \<longrightarrow> ident ev \<notin> dom (values' pre))
     \<and> (\<forall>j<length tr. \<forall>i<j. is_Returned (snd (tr ! j)) \<longrightarrow>
           ident (snd (tr ! i)) \<in> dom (values' (fst (tr ! j)))
           \<and> ident (snd (tr ! i)) \<noteq> ident (snd (tr ! j)))"
proof -
  have "finite (dom (values' NewIDs))"
    by (simp add: NewIDs_def)
  from run_trace [OF this, of U calls]
  obtain tr s' where run: "run U NewIDs calls = Some (tr, s')" and len: "length tr = length calls"
    and each: "\<forall>(pre, ev)\<in>set tr. dom (values' NewIDs) \<subseteq> dom (values' pre) \<and> ident ev \<in> dom (values' s')
          \<and> (if is_Returned ev then ident ev \<notin> dom (values' pre) else True)"
    and earlier: "\<forall>j<length tr. \<forall>i<j. ident (snd (tr ! i)) \<in> dom (values' (fst (tr ! j)))"
    by blast
  have a: "\<forall>(pre, ev)\<in>set tr. ident ev \<in> dom (values' s')"
    using each by (simp add: case_prod_beta)
  have b: "\<forall>(pre, ev)\<in>set tr. is_Returned ev \<longrightarrow> ident ev \<notin> dom (values' pre)"
    using each by (simp add: case_prod_beta)
  have c: "ident (snd (tr ! i)) \<in> dom (values' (fst (tr ! j)))
      \<and> ident (snd (tr ! i)) \<noteq> ident (snd (tr ! j))"
    if "j < length tr" "i < j" "is_Returned (snd (tr ! j))" for i j
  proof -
    from that(1) have "tr ! j \<in> set tr"
      by simp
    from bspec [OF b this] that(3) have "ident (snd (tr ! j)) \<notin> dom (values' (fst (tr ! j)))"
      by (simp add: case_prod_beta)
    moreover from earlier that have "ident (snd (tr ! i)) \<in> dom (values' (fst (tr ! j)))"
      by simp
    ultimately show ?thesis
      by metis
  qed
  from run len a b c show ?thesis
    by (intro exI [of _ tr] exI [of _ s']) simp
qed

text \<open>
  A session that reserves \<^verbatim>\<open>intro\<close> and \<^verbatim>\<open>intro-3\<close> and asks three times for the
  identifier of a text whose slug is \<^verbatim>\<open>intro\<close>.
\<close>

theorem registry_uniqueness_witness:
  "map_option (map snd \<circ> fst)
     (run go_unicode NewIDs
        [CallPut ''intro'', CallGenerate ''Intro'' KindHeading, CallGenerate ''Intro'' KindHeading,
         CallPut ''intro-3'', CallGenerate ''intro'' (KindOther 0), CallPut ''intro''])
   = Some [Reserved ''intro'', Returned ''intro-1'', Returned ''intro-2'',
           Reserved ''intro-3'', Returned ''intro-4'', Reserved ''intro'']"
proof -
  have r: "map_option (map snd \<circ> fst)
     (run go_unicode NewIDs
        [CallPut ''intro'', CallGenerate ''Intro'' KindHeading, CallGenerate ''Intro'' KindHeading,
         CallPut ''intro-3'', CallGenerate ''intro'' (KindOther 0), CallPut ''intro''])
   = Some [Reserved ''intro'', Returned ''intro-1'', Returned ''intro-2'',
           Reserved ''intro-3'', Returned ''intro-4'', Reserved ''intro'']"
    by (simp add: registry_eval slug_eval)
  from registry_uniqueness [of go_unicode
      "[CallPut ''intro'', CallGenerate ''Intro'' KindHeading, CallGenerate ''Intro'' KindHeading,
        CallPut ''intro-3'', CallGenerate ''intro'' (KindOther 0), CallPut ''intro'']"] r
  show ?thesis
    by simp
qed

section \<open>The two revisions of the slugifier\<close>

declare slugify_loop_part000.simps [simp del]
declare runes.simps [simp del]

lemma repl_None:
  "\<not> (0xE0 \<le> k \<and> k \<le> 0xFF) \<Longrightarrow> k \<noteq> 0x11F \<Longrightarrow> k \<noteq> 0x131 \<Longrightarrow> k \<noteq> 0x153 \<Longrightarrow> repl k = None"
  by (auto simp: repl_def)

lemma repl_part000_None:
  "\<not> (0xC0 \<le> k \<and> k \<le> 0xFF) \<Longrightarrow> k \<noteq> 0x152 \<Longrightarrow> k \<noteq> 0x153 \<Longrightarrow> repl_part000 k = None"
  by (auto simp: repl_part000_def)

lemma repl_agree_latin1:
  "\<forall>r\<in>set [0xC0..<0x100]. repl (go_ToLower r) = map_option strings_ToLower (repl_part000 r)"
  by (simp add: upt_rec_numeral go_ToLower_def repl_def repl_part000_def strings_ToLower_def
      char_of_def bit_Suc_0_iff)

lemma go_ToLower_other:
  assumes "0x100 \<le> r"
    and "r \<noteq> 0x130" and "r \<noteq> 0x178" and "r \<noteq> 0x1E9E" and "r \<noteq> 0x212A" and "r \<noteq> 0x212B"
  shows "go_ToLower r \<in> {r, r + 1}"
  unfolding go_ToLower_def using assms by simp

lemma repl_agree_special:
  "repl (go_ToLower 0x130) = map_option strings_ToLower (repl_part000 0x130)"
  "repl (go_ToLower 0x152) = map_option strings_ToLower (repl_part000 0x152)"
  "repl (go_ToLower 0x153) = map_option strings_ToLower (repl_part000 0x153)"
  "repl (go_ToLower 0x1E9E) = map_option strings_ToLower (repl_part000 0x1E9E)"
  "repl (go_ToLower 0x212A) = map_option strings_ToLower (repl_part000 0x212A)"
  by (simp_all add: go_ToLower_def repl_def repl_part000_def strings_ToLower_def)

lemma repl_agree:
  assumes "RuneSelf \<le> r" and "r \<notin> {0x11E, 0x11F, 0x131, 0x178, 0x212B}"
  shows "repl (go_ToLower r) = map_option strings_ToLower (repl_part000 r)"
proof (cases "r < 0xC0")
  case True
  with assms(1) have "go_ToLower r = r"
    by (simp add: go_ToLower_def RuneSelf_def)
  with True show ?thesis
    by (simp add: repl_None repl_part000_None)
next
  case False
  note ge = this
  show ?thesis
  proof (cases "r < 0x100")
    case True
    with ge have "r \<in> set [0xC0..<0x100]"
      by (simp del: upt_rec_numeral)
    with repl_agree_latin1 show ?thesis
      by blast
  next
    case False
    show ?thesis
    proof (cases "r = 0x130 \<or> r = 0x152 \<or> r = 0x153 \<or> r = 0x1E9E \<or> r = 0x212A")
      case True
      with repl_agree_special show ?thesis
        by blast
    next
      case other: False
      from False assms(2) other have "go_ToLower r \<in> {r, r + 1}"
        by (intro go_ToLower_other) simp_all
      moreover from False assms(2) other have "repl r = None"
        by (intro repl_None) simp_all
      moreover from False assms(2) other have "repl (r + 1) = None"
        by (intro repl_None) simp_all
      moreover from False other have "repl_part000 r = None"
        by (intro repl_part000_None) simp_all
      ultimately show ?thesis
        by auto
    qed
  qed
qed

lemma slugify_step_agree:
  assumes "\<forall>r. RuneSelf \<le> r \<longrightarrow> repl (ToLower U r) = repl (go_ToLower r)"
    and "r \<notin> {0x11E, 0x11F, 0x131, 0x178, 0x212B}"
  shows "slugify_step U sep r st = slugify_step_part000 U sep r st"
proof (cases "r < RuneSelf")
  case True
  then show ?thesis
    by (simp add: slugify_step_def slugify_step_part000_def)
next
  case False
  then have "repl (go_ToLower r) = map_option strings_ToLower (repl_part000 r)"
    using assms(2) by (intro repl_agree) simp_all
  moreover from False assms(1) have "repl (ToLower U r) = repl (go_ToLower r)"
    by simp
  ultimately have "repl (ToLower U r) = map_option strings_ToLower (repl_part000 r)"
    by simp
  with False show ?thesis
    by (cases "repl_part000 r") (simp_all add: slugify_step_def slugify_step_part000_def)
qed

lemma slugify_loop_agree:
  assumes "\<forall>r. RuneSelf \<le> r \<longrightarrow> repl (ToLower U r) = repl (go_ToLower r)"
  shows "\<forall>r\<in>set (runes inp). r \<notin> {0x11E, 0x11F, 0x131, 0x178, 0x212B}
    \<Longrightarrow> slugify_loop U sep inp st = slugify_loop_part000 U sep inp st"
proof (induction inp arbitrary: st rule: runes.induct)
  case (1 inp)
  show ?case
  proof (cases "inp = []")
    case True
    then show ?thesis
      by (simp add: slugify_loop.simps slugify_loop_part000.simps)
  next
    case False
    obtain r n where d: "DecodeRune inp = (r, n)"
      by (cases "DecodeRune inp")
    with DecodeRune_size_le [of inp] have le: "\<not> length inp < n"
      by simp
    from False d le have rs: "runes inp = r # runes (drop n inp)"
      by (subst runes.simps) simp
    with "1.prems" have r: "r \<notin> {0x11E, 0x11F, 0x131, 0x178, 0x212B}"
      and rest: "\<forall>r\<in>set (runes (drop n inp)). r \<notin> {0x11E, 0x11F, 0x131, 0x178, 0x212B}"
      by simp_all
    have "slugify_loop U sep (drop n inp) (slugify_step U sep r st)
        = slugify_loop_part000 U sep (drop n inp) (slugify_step U sep r st)"
      using False d le rest by (intro "1.IH") simp_all
    with slugify_step_agree [OF assms r, of sep st] False d le show ?thesis
      by (subst slugify_loop.simps, subst slugify_loop_part000.simps) simp
  qed
qed

text \<open>
  \<^verbatim>\<open>slugify\<close> uses \<^verbatim>\<open>ToLower\<close> only to look the lowercase form of a code point from
  \<^verbatim>\<open>RuneSelf\<close> on up in the table, and does the same whatever \<^verbatim>\<open>IsLetter\<close> and
  \<^verbatim>\<open>IsDigit\<close> answer: two choices of the library functions with the same lookups give
  the same slugs.
\<close>

lemma slugify_step_unicode_cong:
  assumes "\<forall>r. RuneSelf \<le> r \<longrightarrow> repl (ToLower U r) = repl (ToLower U' r)"
  shows "slugify_step U sep r st = slugify_step U' sep r st"
proof (cases "r < RuneSelf")
  case True
  then show ?thesis
    by (simp add: slugify_step_def)
next
  case False
  with assms have "repl (ToLower U r) = repl (ToLower U' r)"
    by simp
  with False show ?thesis
    by (simp add: slugify_step_def)
qed

lemma slugify_loop_unicode_cong:
  assumes "\<forall>r. RuneSelf \<le> r \<longrightarrow> repl (ToLower U r) = repl (ToLower U' r)"
  shows "slugify_loop U sep inp st = slugify_loop U' sep inp st"
proof (induction inp arbitrary: st rule: runes.induct)
  case (1 inp)
  show ?case
  proof (cases "inp = []")
    case True
    then show ?thesis
      by (simp add: slugify_loop.simps)
  next
    case False
    obtain r n where d: "DecodeRune inp = (r, n)"
      by (cases "DecodeRune inp")
    with DecodeRune_size_le [of inp] have le: "\<not> length inp < n"
      by simp
    have "slugify_loop U sep (drop n inp) (slugify_step U sep r st)
        = slugify_loop U' sep (drop n inp) (slugify_step U sep r st)"
      using False d le by (intro "1.IH") simp_all
    with slugify_step_unicode_cong [OF assms, of sep r st] False d le show ?thesis
      by (subst slugify_loop.simps, subst (2) slugify_loop.simps) simp
  qed
qed

lemma slugify_unicode_cong:
  assumes "\<forall>r. RuneSelf \<le> r \<longrightarrow> repl (ToLower U r) = repl (ToLower U' r)"
  shows "slugify U inp sep = slugify U' inp sep"
  by (simp add: slugify_def slugify_loop_unicode_cong [OF assms])

lemma slugify_loop_part000_Nil: "slugify_loop_part000 U sep [] st = Inr st"
  by (simp add: slugify_loop_part000.simps)

lemma slugify_loop_part000_Cons:
  "slugify_loop_part000 U sep (c # cs) st =
     slugify_loop_part000 U sep (drop (snd (DecodeRune (c # cs))) (c # cs))
       (slugify_step_part000 U sep (fst (DecodeRune (c # cs))) st)"
  using DecodeRune_size_le [of "c # cs"]
  by (subst slugify_loop_part000.simps) (simp add: case_prod_beta not_less del: DecodeRune.simps)

lemma runes_Nil: "runes [] = []"
  by (simp add: runes.simps)

lemma runes_Cons:
  "runes (c # cs) = fst (DecodeRune (c # cs)) # runes (drop (snd (DecodeRune (c # cs))) (c # cs))"
  using DecodeRune_size_le [of "c # cs"]
  by (subst runes.simps) (simp add: case_prod_beta not_less del: DecodeRune.simps)

lemmas part000_eval = slugify_part000_def slugify_loop_part000_Nil slugify_loop_part000_Cons
  slugify_step_part000_def repl_part000_def strings_ToLower_def runes_Nil runes_Cons

text \<open>
  Claim C10, amended. The \<^verbatim>\<open>slugify\<close> of headingid.go and the \<^verbatim>\<open>slugify\<close> of
  part_000 return the same for every separator and every input in which no decoded code
  point is U+011E, U+011F, U+0131, U+0178 or U+212B. These five are the code points
  whose lowercase form is a key of the table of headingid.go and that are themselves no
  key of the table of part_000. The library functions are any \<open>U\<close> whose \<^verbatim>\<open>ToLower\<close>
  leads to the same entry of the table as \<open>go_ToLower\<close> for every code point from
  \<^verbatim>\<open>RuneSelf\<close> on, whatever \<^verbatim>\<open>IsLetter\<close> and \<^verbatim>\<open>IsDigit\<close> answer. Go's
  \<^verbatim>\<open>unicode.ToLower\<close> is such a function: where it differs from \<open>go_ToLower\<close>, from
  U+0180 on, both give code points that are no key of the table.
\<close>

theorem slugify_revisions_agree:
  assumes "\<forall>r. RuneSelf \<le> r \<longrightarrow> repl (ToLower U r) = repl (go_ToLower r)"
    and "\<forall>r\<in>set (runes inp). r \<notin> {0x11E, 0x11F, 0x131, 0x178, 0x212B}"
  shows "slugify U inp sep = slugify_part000 U inp sep"
  using slugify_loop_agree [OF assms, of sep "([], False)"]
  by (simp add: slugify_def slugify_part000_def)

text \<open>
  The library functions of the witness lower U+0391 to U+03B1, as Go does and
  \<open>go_ToLower\<close> does not. The input has U+00C9 and U+0152, upper case letters that
  both tables reach, a byte that does not decode, a letter neither table has, and
  U+0391.
\<close>

theorem slugify_revisions_agree_witness:
  "ToLower (go_unicode\<lparr>ToLower := go_ToLower(0x391 := 0x3B1)\<rparr>) 0x391 = 0x3B1 \<and> go_ToLower 0x391 = 0x391
   \<and> runes (''Caf'' @ [CHR 0xC3, CHR 0x89] @ '' '' @ [CHR 0xC5, CHR 0x92] @ ''uvre'' @ [CHR 0xFF, CHR 0xE4, CHR 0xB8, CHR 0xAD, CHR 0xCE, CHR 0x91])
       = [0x43, 0x61, 0x66, 0xC9, 0x20, 0x152, 0x75, 0x76, 0x72, 0x65, RuneError, 0x4E2D, 0x391]
   \<and> slugify (go_unicode\<lparr>ToLower := go_ToLower(0x391 := 0x3B1)\<rparr>) (''Caf'' @ [CHR 0xC3, CHR 0x89] @ '' '' @ [CHR 0xC5, CHR 0x92] @ ''uvre'' @ [CHR 0xFF, CHR 0xE4, CHR 0xB8, CHR 0xAD, CHR 0xCE, CHR 0x91]) CHR ''-'' = Inr ''cafe-oeuvre''
   \<and> slugify_part000 (go_unicode\<lparr>ToLower := go_ToLower(0x391 := 0x3B1)\<rparr>) (''Caf'' @ [CHR 0xC3, CHR 0x89] @ '' '' @ [CHR 0xC5, CHR 0x92] @ ''uvre'' @ [CHR 0xFF, CHR 0xE4, CHR 0xB8, CHR 0xAD, CHR 0xCE, CHR 0x91]) CHR ''-'' = Inr ''cafe-oeuvre''"
proof -
  have l: "ToLower (go_unicode\<lparr>ToLower := go_ToLower(0x391 := 0x3B1)\<rparr>) 0x391 = 0x3B1" "go_ToLower 0x391 = 0x391"
    by (simp_all add: go_ToLower_def)
  have "repl (ToLower (go_unicode\<lparr>ToLower := go_ToLower(0x391 := 0x3B1)\<rparr>) r) = repl (go_ToLower r)" for r
  proof (cases "r = 0x391")
    case True
    then show ?thesis
      by (simp add: go_ToLower_def repl_def)
  next
    case False
    then show ?thesis
      by simp
  qed
  then have h1: "\<forall>r. RuneSelf \<le> r \<longrightarrow> repl (ToLower (go_unicode\<lparr>ToLower := go_ToLower(0x391 := 0x3B1)\<rparr>) r) = repl (go_ToLower r)"
    by blast
  have rs: "runes (''Caf'' @ [CHR 0xC3, CHR 0x89] @ '' '' @ [CHR 0xC5, CHR 0x92] @ ''uvre'' @ [CHR 0xFF, CHR 0xE4, CHR 0xB8, CHR 0xAD, CHR 0xCE, CHR 0x91])
       = [0x43, 0x61, 0x66, 0xC9, 0x20, 0x152, 0x75, 0x76, 0x72, 0x65, RuneError, 0x4E2D, 0x391]"
    by (simp add: runes_Nil runes_Cons RuneSelf_def RuneError_def Let_def)
  have h2: "\<forall>r\<in>set (runes (''Caf'' @ [CHR 0xC3, CHR 0x89] @ '' '' @ [CHR 0xC5, CHR 0x92] @ ''uvre'' @ [CHR 0xFF, CHR 0xE4, CHR 0xB8, CHR 0xAD, CHR 0xCE, CHR 0x91])).
      r \<notin> {0x11E, 0x11F, 0x131, 0x178, 0x212B}"
    unfolding rs by (simp add: RuneError_def)
  have e: "slugify (go_unicode\<lparr>ToLower := go_ToLower(0x391 := 0x3B1)\<rparr>) (''Caf'' @ [CHR 0xC3, CHR 0x89] @ '' '' @ [CHR 0xC5, CHR 0x92] @ ''uvre'' @ [CHR 0xFF, CHR 0xE4, CHR 0xB8, CHR 0xAD, CHR 0xCE, CHR 0x91]) CHR ''-'' = Inr ''cafe-oeuvre''"
    by (simp add: slug_eval)
  from slugify_revisions_agree [OF h1 h2, of "CHR ''-''"] e l rs show ?thesis
    by simp
qed

text \<open>
  Claim C10 as stated fails on U+011F, in UTF-8 the bytes C4 9F: headingid.go has the
  entry that maps it to \<^verbatim>\<open>g\<close>, part_000 has none and drops the letter.
\<close>

theorem slugify_revisions_agree_counterexample:
  "slugify go_unicode [CHR 0xC4, CHR 0x9F] CHR ''-'' = Inr ''g''
   \<and> slugify_part000 go_unicode [CHR 0xC4, CHR 0x9F] CHR ''-'' = Inr []"
  by (simp add: slug_eval part000_eval)

text \<open>
  Each of the five code points set aside does tell the two revisions apart: alone in an
  input, headingid.go transliterates it and part_000 drops it.
\<close>

lemma slugify_revisions_differ:
  "slugify go_unicode [CHR 0xC4, CHR 0x9E] CHR ''-'' = Inr ''g''"
  "slugify_part000 go_unicode [CHR 0xC4, CHR 0x9E] CHR ''-'' = Inr []"
  "slugify go_unicode [CHR 0xC4, CHR 0xB1] CHR ''-'' = Inr ''i''"
  "slugify_part000 go_unicode [CHR 0xC4, CHR 0xB1] CHR ''-'' = Inr []"
  "slugify go_unicode [CHR 0xC5, CHR 0xB8] CHR ''-'' = Inr ''y''"
  "slugify_part000 go_unicode [CHR 0xC5, CHR 0xB8] CHR ''-'' = Inr []"
  "slugify go_unicode [CHR 0xE2, CHR 0x84, CHR 0xAB] CHR ''-'' = Inr ''a''"
  "slugify_part000 go_unicode [CHR 0xE2, CHR 0x84, CHR 0xAB] CHR ''-'' = Inr []"
  by (simp_all add: slug_eval part000_eval)

end
